theory Spec2Isabelle
  imports Main "HOL-Library.Word"
begin

unbundle bit_operations_syntax

section \<open>COBALT (CoDel-BLUE alternate AQM): data model of \<open>cobalt.c\<close>\<close>

text \<open>
  \<open>u32\<close> is a 32-bit word, \<open>cobalt_time_t\<close> is \<open>u64\<close> (nanoseconds) and
  \<open>cobalt_tdiff_t\<close> is \<open>s64\<close>: the same 64 bits read in two's complement, so a
  test \<open>schedule >= 0\<close> on an \<open>s64\<close> is the signed comparison \<open>0 \<le>s schedule\<close>.
\<close>

type_synonym u32 = "32 word"
type_synonym u64 = "64 word"
type_synonym cobalt_time_t = "64 word"
type_synonym cobalt_tdiff_t = "64 word"

text \<open>\<open>MS2TIME(a)\<close> is \<open>a * (u64) NSEC_PER_MSEC\<close>, and \<open>US2TIME(a)\<close> is \<open>a * (u64) NSEC_PER_USEC\<close>.\<close>

definition MS2TIME :: "u64 \<Rightarrow> cobalt_time_t" where
  "MS2TIME a = a * 1000000"

definition US2TIME :: "u64 \<Rightarrow> cobalt_time_t" where
  "US2TIME a = a * 1000"

record cobalt_params =
  interval :: cobalt_time_t
  target :: cobalt_time_t
  threshold :: cobalt_time_t
  p_inc :: u32
  p_dec :: u32

record cobalt_vars =
  count :: u32
  rec_inv_sqrt :: u32
  drop_next :: cobalt_time_t
  blue_timer :: cobalt_time_t
  p_drop :: u32
  dropping :: bool
  ecn_marked :: bool

text \<open>
  What the core reads from a packet (\<open>struct sk_buff\<close>): the enqueue time kept in
  its control block (\<open>cobalt_get_enqueue_time\<close>), and the answer of the kernel's
  \<open>INET_ECN_set_ce\<close> on it, which is true when the packet could be marked.
\<close>

record sk_buff =
  enqueue_time :: cobalt_time_t
  ect :: bool

definition cobalt_get_enqueue_time :: "sk_buff \<Rightarrow> cobalt_time_t" where
  "cobalt_get_enqueue_time skb = enqueue_time skb"

definition INET_ECN_set_ce :: "sk_buff \<Rightarrow> bool" where
  "INET_ECN_set_ce skb = ect skb"

text \<open>
  \<open>REC_INV_SQRT_BITS\<close> is \<open>8 * sizeof(u32)\<close>, so \<open>REC_INV_SQRT_SHIFT\<close> is 0;
  the table \<open>cobalt_rec_inv_sqrt_cache\<close> has \<open>REC_INV_SQRT_CACHE\<close> entries and is
  a list of that length here.
\<close>

definition REC_INV_SQRT_BITS :: nat where
  "REC_INV_SQRT_BITS = 8 * 4"

definition REC_INV_SQRT_SHIFT :: nat where
  "REC_INV_SQRT_SHIFT = 32 - REC_INV_SQRT_BITS"

definition REC_INV_SQRT_CACHE :: u32 where
  "REC_INV_SQRT_CACHE = 16"

type_synonym cache = "u32 list"

section \<open>Newton step\<close>

text \<open>
  The else branch of \<open>cobalt_Newton_step\<close>: one Newton iteration on the Q0.32
  estimate. \<open>invsqrt2\<close> is the high half of the 64-bit square; \<open>val\<close> is computed in
  \<open>u64\<close> and wraps there; the result is cut back to 32 bits.
\<close>

definition Newton_general :: "u32 \<Rightarrow> u32 \<Rightarrow> u32" where
  "Newton_general cnt r =
     (let invsqrt = (push_bit REC_INV_SQRT_SHIFT r :: u32);
          invsqrt2 = (ucast (drop_bit 32 ((ucast invsqrt :: u64) * ucast invsqrt)) :: u32);
          val = (push_bit 32 3 :: u64) - (ucast cnt :: u64) * ucast invsqrt2;
          val = drop_bit 2 val;
          val = drop_bit (32 - 2 + 1) (val * ucast invsqrt)
      in (ucast (drop_bit REC_INV_SQRT_SHIFT val) :: u32))"

definition cobalt_Newton_step :: "cache \<Rightarrow> cobalt_vars \<Rightarrow> cobalt_vars" where
  "cobalt_Newton_step tbl vars =
     (if count vars < REC_INV_SQRT_CACHE \<and> tbl ! unat (count vars) \<noteq> 0
      then vars\<lparr>rec_inv_sqrt := tbl ! unat (count vars)\<rparr>
      else vars\<lparr>rec_inv_sqrt := Newton_general (count vars) (rec_inv_sqrt vars)\<rparr>)"

section \<open>Control law\<close>

text \<open>
  \<open>reciprocal_scale\<close> is the Linux kernel's helper (\<open>linux/kernel.h\<close>), not part of
  this file: \<open>(u32)(((u64) val * ep_ro) >> 32)\<close> on two \<open>u32\<close> arguments. The
  \<open>u64\<close> interval is converted to its parameter type \<open>u32\<close> at the call.
\<close>

definition reciprocal_scale :: "u32 \<Rightarrow> u32 \<Rightarrow> u32" where
  "reciprocal_scale val ep_ro = ucast (drop_bit 32 ((ucast val :: u64) * ucast ep_ro))"

definition cobalt_control_law :: "cobalt_time_t \<Rightarrow> cobalt_time_t \<Rightarrow> u32 \<Rightarrow> cobalt_time_t" where
  "cobalt_control_law t ival r =
     t + ucast (reciprocal_scale (ucast ival) (push_bit REC_INV_SQRT_SHIFT r))"

section \<open>BLUE entry points\<close>

definition cobalt_queue_full :: "cobalt_vars \<Rightarrow> cobalt_params \<Rightarrow> cobalt_time_t \<Rightarrow> cobalt_vars" where
  "cobalt_queue_full vars p now =
     (let vars = (if now - blue_timer vars > target p
                  then (let vars = vars\<lparr>p_drop := p_drop vars + p_inc p\<rparr>;
                            vars = (if p_drop vars < p_inc p then vars\<lparr>p_drop := NOT 0\<rparr> else vars)
                        in vars\<lparr>blue_timer := now\<rparr>)
                  else vars);
          vars = vars\<lparr>dropping := True\<rparr>;
          vars = vars\<lparr>drop_next := now\<rparr>
      in if count vars = 0 then vars\<lparr>count := 1\<rparr> else vars)"

definition cobalt_queue_empty :: "cobalt_vars \<Rightarrow> cobalt_params \<Rightarrow> cobalt_time_t \<Rightarrow> cobalt_vars" where
  "cobalt_queue_empty vars p now =
     (let vars = (if now - blue_timer vars > target p
                  then (let vars = (if p_drop vars < p_dec p then vars\<lparr>p_drop := 0\<rparr>
                                    else vars\<lparr>p_drop := p_drop vars - p_dec p\<rparr>)
                        in vars\<lparr>blue_timer := now\<rparr>)
                  else vars)
      in vars\<lparr>dropping := False\<rparr>)"

section \<open>The dequeue decision\<close>

text \<open>
  The \<open>while(next_due)\<close> loop of \<open>cobalt_should_drop\<close>, with the loop variable
  \<open>next_due\<close> as an argument. One iteration is \<open>cobalt_resync_body\<close>; the value of
  \<open>next_due\<close> recomputed at its end is \<open>cobalt_next_due\<close>.
\<close>

definition cobalt_next_due :: "cobalt_time_t \<Rightarrow> cobalt_vars \<Rightarrow> bool" where
  "cobalt_next_due now vars =
     (let schedule = (now - drop_next vars :: cobalt_tdiff_t)
      in count vars \<noteq> 0 \<and> 0 \<le>s schedule)"

definition cobalt_resync_body :: "cache \<Rightarrow> cobalt_params \<Rightarrow> cobalt_vars \<Rightarrow> cobalt_vars" where
  "cobalt_resync_body tbl p vars =
     (let vars = vars\<lparr>count := count vars - 1\<rparr>;
          vars = cobalt_Newton_step tbl vars
      in vars\<lparr>drop_next := cobalt_control_law (drop_next vars) (interval p) (rec_inv_sqrt vars)\<rparr>)"

function cobalt_resync ::
  "cache \<Rightarrow> cobalt_params \<Rightarrow> cobalt_time_t \<Rightarrow> cobalt_vars \<Rightarrow> bool \<Rightarrow> cobalt_vars" where
  "cobalt_resync tbl p now vars next_due =
     (if next_due
      then (let vars = cobalt_resync_body tbl p vars
            in cobalt_resync tbl p now vars (cobalt_next_due now vars))
      else vars)"
  by pat_completeness auto


text \<open>
  The loop ends: after the first iteration \<open>next_due\<close> implies a nonzero \<open>count\<close>,
  and each iteration takes one from it.
\<close>

termination cobalt_resync
proof (relation "measure (\<lambda>(tbl, p, now, vars, nd).
         if nd then (if count vars = 0 then 2 ^ 32 + 1 else unat (count vars) + 1) else 0)", goal_cases)
  case 1
  show ?case by simp
next
  case (2 tbl p now vars next_due x)
  have cnt: "count (cobalt_resync_body tbl p vars) = count vars - 1"
    by (simp add: cobalt_resync_body_def cobalt_Newton_step_def Let_def)
  have lt: "unat (count vars - 1) < 2 ^ 32"
    using unsigned_less [of "count vars - 1"] by simp
  show ?case
  proof (cases "count vars = 0")
    case True
    with 2 lt cnt show ?thesis by (simp add: cobalt_next_due_def)
  next
    case False
    then have "unat (count vars - 1) = unat (count vars) - 1"
      by (simp add: unat_minus_one)
    moreover from False have "unat (count vars) \<noteq> 0"
      by (simp add: unat_eq_0)
    ultimately show ?thesis using 2 False cnt by (simp add: cobalt_next_due_def)
  qed
qed

declare cobalt_resync.simps [simp del]

text \<open>
  \<open>cobalt_should_drop\<close>. The table is the global it reads; the last argument is the
  value \<open>prandom_u32()\<close> returns if the call asks for it (it asks at most once). The
  result is the verdict and the variables as the call leaves them. In
  \<open>sojourn > p->target\<close> the \<open>s64\<close> sojourn meets a \<open>u64\<close>, so C compares the two
  as unsigned; \<open>schedule >= 0\<close> compares an \<open>s64\<close> with an \<open>int\<close> and is signed.
\<close>

definition cobalt_should_drop ::
  "cache \<Rightarrow> cobalt_vars \<Rightarrow> cobalt_params \<Rightarrow> cobalt_time_t \<Rightarrow> sk_buff \<Rightarrow> u32
     \<Rightarrow> bool \<times> cobalt_vars" where
  "cobalt_should_drop tbl vars p now skb prandom_u32 =
     (let drop = False;
          sojourn = (now - cobalt_get_enqueue_time skb :: cobalt_tdiff_t);
          schedule = (now - drop_next vars :: cobalt_tdiff_t);
          over_target = (sojourn > target p);
          next_due = (count vars \<noteq> 0 \<and> 0 \<le>s schedule);
          vars = vars\<lparr>ecn_marked := False\<rparr>;
          vars = (if over_target
                  then (let vars = (if \<not> dropping vars
                                    then vars\<lparr>dropping := True, drop_next := now + interval p\<rparr>
                                    else vars)
                        in if count vars = 0 then vars\<lparr>count := 1\<rparr> else vars)
                  else if dropping vars then vars\<lparr>dropping := False\<rparr>
                  else vars);
          (drop, vars) =
            (if next_due \<and> dropping vars
             then (let marked = INET_ECN_set_ce skb;
                       vars = vars\<lparr>ecn_marked := marked\<rparr>;
                       drop = (\<not> marked);
                       vars = vars\<lparr>count := count vars + 1\<rparr>;
                       vars = (if count vars = 0 then vars\<lparr>count := count vars - 1\<rparr> else vars);
                       vars = cobalt_Newton_step tbl vars;
                       vars = vars\<lparr>drop_next :=
                                cobalt_control_law (drop_next vars) (interval p) (rec_inv_sqrt vars)\<rparr>
                   in (drop, vars))
             else (drop, cobalt_resync tbl p now vars next_due));
          drop = (if p_drop vars \<noteq> 0 then drop \<or> prandom_u32 < p_drop vars else drop)
      in (drop, vars))"

section \<open>Sequences of calls\<close>

datatype cobalt_event =
    Dequeue cobalt_time_t sk_buff u32
  | Queue_full cobalt_time_t
  | Queue_empty cobalt_time_t

fun cobalt_step :: "cache \<Rightarrow> cobalt_params \<Rightarrow> cobalt_vars \<Rightarrow> cobalt_event \<Rightarrow> cobalt_vars" where
  "cobalt_step tbl p vars (Dequeue now skb r) = snd (cobalt_should_drop tbl vars p now skb r)"
| "cobalt_step tbl p vars (Queue_full now) = cobalt_queue_full vars p now"
| "cobalt_step tbl p vars (Queue_empty now) = cobalt_queue_empty vars p now"

definition cobalt_run :: "cache \<Rightarrow> cobalt_params \<Rightarrow> cobalt_vars \<Rightarrow> cobalt_event list \<Rightarrow> cobalt_vars" where
  "cobalt_run tbl p vars es = foldl (cobalt_step tbl p) vars es"

text \<open>A call of \<open>cobalt_should_drop\<close> for a packet whose sojourn time is over target.\<close>

definition over_target :: "cobalt_params \<Rightarrow> cobalt_event \<Rightarrow> bool" where
  "over_target p e =
     (case e of
        Dequeue now skb r \<Rightarrow> target p < now - cobalt_get_enqueue_time skb
      | Queue_full now \<Rightarrow> False
      | Queue_empty now \<Rightarrow> False)"

section \<open>Initialisation and the table\<close>

text \<open>\<open>memset(vars, 0, sizeof(*vars))\<close>.\<close>

definition vars_zero :: cobalt_vars where
  "vars_zero = \<lparr>count = 0, rec_inv_sqrt = 0, drop_next = 0, blue_timer = 0, p_drop = 0,
                dropping = False, ecn_marked = False\<rparr>"

text \<open>The \<open>for\<close> loop of \<open>cobalt_cache_init\<close>, from the current \<open>v.count\<close>.\<close>

function cobalt_cache_loop :: "cobalt_vars \<Rightarrow> cache \<Rightarrow> cobalt_vars \<times> cache" where
  "cobalt_cache_loop v tbl =
     (if count v < REC_INV_SQRT_CACHE
      then (let v = cobalt_Newton_step tbl v;
                v = cobalt_Newton_step tbl v;
                v = cobalt_Newton_step tbl v;
                v = cobalt_Newton_step tbl v;
                tbl = tbl[unat (count v) := rec_inv_sqrt v]
            in cobalt_cache_loop (v\<lparr>count := count v + 1\<rparr>) tbl)
      else (v, tbl))"
  by pat_completeness auto
termination
proof (relation "measure (\<lambda>(v, tbl). 16 - unat (count v))", goal_cases)
  case 1
  show ?case by simp
next
  case (2 v tbl x xa xb xc xd)
  have cnt: "count (cobalt_Newton_step t w) = count w" for t w
    by (simp add: cobalt_Newton_step_def)
  from 2 have "count v < 16" by (simp add: REC_INV_SQRT_CACHE_def)
  then have "unat (count v) < 16" by (simp add: word_less_nat_alt)
  moreover from this have "unat (count v + 1) = unat (count v) + 1"
    by (simp add: unat_word_ariths)
  ultimately show ?case using 2 by (simp add: cnt)
qed

declare cobalt_cache_loop.simps [simp del]

text \<open>
  The body of \<open>cobalt_cache_init\<close> after its call of \<open>cobalt_vars_init(&v)\<close>: the
  seed, entry 0 and the loop. It returns the table as it leaves it.
\<close>

definition cobalt_cache_fill :: "cobalt_vars \<Rightarrow> cache \<Rightarrow> cache" where
  "cobalt_cache_fill v tbl =
     (let v = v\<lparr>rec_inv_sqrt := drop_bit REC_INV_SQRT_SHIFT (NOT 0)\<rparr>;
          tbl = tbl[0 := rec_inv_sqrt v];
          v = v\<lparr>count := 1\<rparr>
      in snd (cobalt_cache_loop v tbl))"

text \<open>
  \<open>cobalt_vars_init\<close> and \<open>cobalt_cache_init\<close> call each other, so both take the
  call depth they may still use and return \<open>None\<close> when it is used up: a call that
  returns \<open>None\<close> at every depth does not return. The guard of \<open>cobalt_vars_init\<close>
  is written \<open>cobalt_rev_inv_sqrt_cache[0]\<close> in the source, a name the file never
  declares; it is read as entry 0 of \<open>cobalt_rec_inv_sqrt_cache\<close>, the one table
  there is. \<open>cobalt_vars_init\<close> returns the variables and the table.
\<close>

fun cobalt_vars_init :: "nat \<Rightarrow> cache \<Rightarrow> (cobalt_vars \<times> cache) option"
  and cobalt_cache_init :: "nat \<Rightarrow> cache \<Rightarrow> cache option" where
  "cobalt_vars_init 0 tbl = None"
| "cobalt_vars_init (Suc n) tbl =
     (let vars = vars_zero
      in if tbl ! 0 = 0
         then (case cobalt_cache_init n tbl of
                 None \<Rightarrow> None
               | Some tbl \<Rightarrow> Some (vars, tbl[0 := NOT 0]))
         else Some (vars, tbl))"
| "cobalt_cache_init 0 tbl = None"
| "cobalt_cache_init (Suc n) tbl =
     (case cobalt_vars_init n tbl of
        None \<Rightarrow> None
      | Some (v, tbl) \<Rightarrow> Some (cobalt_cache_fill v tbl))"

text \<open>The table as the program starts: \<open>= {0}\<close>.\<close>

definition cache_zero :: cache where
  "cache_zero = replicate 16 0"


section \<open>The table as the specification describes it\<close>

text \<open>
  The reference for the table, following the specification's words and not
  \<open>cobalt_cache_init\<close>: the entry for \<open>count = 0\<close> is the seed, the largest 32-bit
  fraction; the entry for each further \<open>count\<close> is the previous entry after four
  general-path Newton steps at that \<open>count\<close>.
\<close>

fun rec_inv_sqrt_spec :: "nat \<Rightarrow> u32" where
  "rec_inv_sqrt_spec 0 = NOT 0"
| "rec_inv_sqrt_spec (Suc n) = ((Newton_general (of_nat (Suc n))) ^^ 4) (rec_inv_sqrt_spec n)"

section \<open>Basic facts\<close>

lemma count_Newton_step [simp]: "count (cobalt_Newton_step tbl vars) = count vars"
  by (simp add: cobalt_Newton_step_def)

lemma drop_next_Newton_step [simp]: "drop_next (cobalt_Newton_step tbl vars) = drop_next vars"
  by (simp add: cobalt_Newton_step_def)

lemma blue_timer_Newton_step [simp]: "blue_timer (cobalt_Newton_step tbl vars) = blue_timer vars"
  by (simp add: cobalt_Newton_step_def)

lemma p_drop_Newton_step [simp]: "p_drop (cobalt_Newton_step tbl vars) = p_drop vars"
  by (simp add: cobalt_Newton_step_def)

lemma dropping_Newton_step [simp]: "dropping (cobalt_Newton_step tbl vars) = dropping vars"
  by (simp add: cobalt_Newton_step_def)

lemma ecn_marked_Newton_step [simp]: "ecn_marked (cobalt_Newton_step tbl vars) = ecn_marked vars"
  by (simp add: cobalt_Newton_step_def)

lemma count_resync_body [simp]: "count (cobalt_resync_body tbl p vars) = count vars - 1"
  by (simp add: cobalt_resync_body_def Let_def)

lemma blue_timer_resync_body [simp]:
  "blue_timer (cobalt_resync_body tbl p vars) = blue_timer vars"
  by (simp add: cobalt_resync_body_def Let_def)

lemma p_drop_resync_body [simp]: "p_drop (cobalt_resync_body tbl p vars) = p_drop vars"
  by (simp add: cobalt_resync_body_def Let_def)

lemma dropping_resync_body [simp]: "dropping (cobalt_resync_body tbl p vars) = dropping vars"
  by (simp add: cobalt_resync_body_def Let_def)

lemma ecn_marked_resync_body [simp]:
  "ecn_marked (cobalt_resync_body tbl p vars) = ecn_marked vars"
  by (simp add: cobalt_resync_body_def Let_def)

text \<open>What the loop never touches, by induction along its iterations.\<close>

lemma resync_frame:
  "blue_timer (cobalt_resync tbl p now vars nd) = blue_timer vars \<and>
   p_drop (cobalt_resync tbl p now vars nd) = p_drop vars \<and>
   dropping (cobalt_resync tbl p now vars nd) = dropping vars \<and>
   ecn_marked (cobalt_resync tbl p now vars nd) = ecn_marked vars"
proof (induction tbl p now vars nd rule: cobalt_resync.induct)
  case (1 tbl p now vars next_due)
  show ?case
  proof (cases next_due)
    case True
    with 1 show ?thesis
      by (subst (1 2 3 4) cobalt_resync.simps) (simp add: Let_def)
  next
    case False
    then show ?thesis by (simp add: cobalt_resync.simps)
  qed
qed

lemma resync_not_due [simp]: "cobalt_resync tbl p now vars False = vars"
  by (simp add: cobalt_resync.simps)


section \<open>Unsigned arithmetic that saturates\<close>

lemma unat_max_u32: "unat (NOT 0 :: u32) = 2 ^ 32 - 1"
  by (simp add: unsigned_minus_1_eq_mask mask_eq_exp_minus_1)

text \<open>
  The C idiom \<open>x += y; if (x < y) x = ~0;\<close>: the sum wrapped exactly when it is
  below the addend, so the result is the sum of the two numbers cut off at the top.
\<close>

lemma sat_add_u32:
  fixes x y :: u32
  shows "unat (if x + y < y then NOT 0 else x + y) = min (unat x + unat y) (2 ^ 32 - 1)"
proof (cases "x + y < y")
  case True
  then have "\<not> y \<le> y + x" by (simp add: add.commute not_le)
  then have "\<not> unat y + unat x < 2 ^ 32"
    using no_olen_add_nat [of y x] by simp
  with True show ?thesis by (simp add: unat_max_u32 del: bit.compl_zero)
next
  case False
  then have "y \<le> y + x" by (simp add: add.commute not_less)
  then have lt: "unat y + unat x < 2 ^ 32"
    using no_olen_add_nat [of y x] by simp
  then have "unat (y + x) = unat y + unat x"
    using unat_add_lem [of y x] by simp
  with False lt show ?thesis by (simp add: add.commute)
qed

text \<open>\<open>if (x < y) x = 0; else x -= y;\<close> is subtraction on the naturals, which stops at 0.\<close>

lemma floor_sub_u32:
  fixes x y :: u32
  shows "unat (if x < y then 0 else x - y) = unat x - unat y"
proof (cases "x < y")
  case True
  then show ?thesis by (simp add: word_less_nat_alt)
next
  case False
  then have "y \<le> x" by simp
  then show ?thesis using False by (simp add: unat_sub)
qed

section \<open>The BLUE entry points (C3, C4)\<close>

text \<open>
  C3. For every variables, parameters and timestamp, \<open>cobalt_queue_full\<close> does this and
  nothing else. When \<open>now - blue_timer > target\<close> (the difference of the two \<open>u64\<close>
  timestamps, as the code computes it) \<open>p_drop\<close> becomes \<open>p_drop + p_inc\<close>, or the
  largest \<open>u32\<close> where that sum does not fit, and \<open>blue_timer\<close> becomes \<open>now\<close>;
  otherwise both keep their values. In either case \<open>dropping\<close> is set,
  \<open>drop_next\<close> is \<open>now\<close>, and a \<open>count\<close> of 0 becomes 1 while any other count
  stays. Read as numbers, the new \<open>p_drop\<close> is \<open>min (p_drop + p_inc) (2^32 - 1)\<close>.
\<close>

theorem queue_full_effect:
  "cobalt_queue_full vars p now =
     vars\<lparr>p_drop := (if target p < now - blue_timer vars
                      then (if p_drop vars + p_inc p < p_inc p then NOT 0 else p_drop vars + p_inc p)
                      else p_drop vars),
          blue_timer := (if target p < now - blue_timer vars then now else blue_timer vars),
          dropping := True,
          drop_next := now,
          count := (if count vars = 0 then 1 else count vars)\<rparr>
   \<and> unat (p_drop (cobalt_queue_full vars p now)) =
       (if target p < now - blue_timer vars
        then min (unat (p_drop vars) + unat (p_inc p)) (2 ^ 32 - 1)
        else unat (p_drop vars))"
proof -
  have "unat (if p_drop vars + p_inc p < p_inc p then NOT 0 else p_drop vars + p_inc p)
          = min (unat (p_drop vars) + unat (p_inc p)) (2 ^ 32 - 1)"
    by (rule sat_add_u32)
  then show ?thesis
    by (simp add: cobalt_queue_full_def Let_def del: bit.compl_zero split: if_splits)
qed

text \<open>
  C4. For every variables, parameters and timestamp, \<open>cobalt_queue_empty\<close> does this
  and nothing else. When \<open>now - blue_timer > target\<close> it takes \<open>p_dec\<close> from
  \<open>p_drop\<close>, leaving exactly 0 when \<open>p_drop < p_dec\<close>, and sets \<open>blue_timer\<close> to
  \<open>now\<close>; otherwise both keep their values. In either case \<open>dropping\<close> is
  cleared. Read as numbers, the new \<open>p_drop\<close> is the difference that stops at 0.
\<close>

theorem queue_empty_effect:
  "cobalt_queue_empty vars p now =
     vars\<lparr>p_drop := (if target p < now - blue_timer vars
                      then (if p_drop vars < p_dec p then 0 else p_drop vars - p_dec p)
                      else p_drop vars),
          blue_timer := (if target p < now - blue_timer vars then now else blue_timer vars),
          dropping := False\<rparr>
   \<and> unat (p_drop (cobalt_queue_empty vars p now)) =
       (if target p < now - blue_timer vars
        then unat (p_drop vars) - unat (p_dec p)
        else unat (p_drop vars))"
proof -
  have "unat (if p_drop vars < p_dec p then 0 else p_drop vars - p_dec p)
          = unat (p_drop vars) - unat (p_dec p)"
    by (rule floor_sub_u32)
  then show ?thesis
    by (simp add: cobalt_queue_empty_def Let_def split: if_splits)
qed

section \<open>What \<open>cobalt_should_drop\<close> leaves alone (C6)\<close>

text \<open>
  C6. For every table, variables, parameters, timestamp, packet and random draw,
  \<open>cobalt_should_drop\<close> returns the variables with \<open>p_drop\<close> and \<open>blue_timer\<close> as
  they were: whatever it writes is among \<open>count\<close>, \<open>rec_inv_sqrt\<close>, \<open>drop_next\<close>,
  \<open>dropping\<close> and \<open>ecn_marked\<close>, the other five fields of the record.
\<close>

theorem should_drop_frame:
  "p_drop (snd (cobalt_should_drop tbl vars p now skb r)) = p_drop vars \<and>
   blue_timer (snd (cobalt_should_drop tbl vars p now skb r)) = blue_timer vars"
  by (simp add: cobalt_should_drop_def Let_def resync_frame split: prod.splits)


section \<open>The first packet over target (C7)\<close>

text \<open>
  C7. With \<open>target\<close> 5 ms and \<open>interval\<close> 100 ms, whatever the other parameters, the
  table and the random draw are: on zeroed variables, one call of
  \<open>cobalt_should_drop\<close> at \<open>now = 0\<close> for a packet that has waited 6 ms (its enqueue
  time is \<open>0 - 6 ms\<close> on the \<open>u64\<close> clock) returns false, and leaves
  \<open>dropping\<close> set, \<open>drop_next\<close> at 100 ms, \<open>count\<close> at 1 and every other field zero,
  \<open>ecn_marked\<close> included.
\<close>

theorem should_drop_first_packet:
  "cobalt_should_drop tbl vars_zero
     \<lparr>interval = MS2TIME 100, target = MS2TIME 5, threshold = th, p_inc = pi, p_dec = pd\<rparr>
     0 \<lparr>enqueue_time = 0 - MS2TIME 6, ect = e\<rparr> r
   = (False, vars_zero\<lparr>count := 1, drop_next := MS2TIME 100, dropping := True\<rparr>)"
  by (simp add: cobalt_should_drop_def vars_zero_def MS2TIME_def cobalt_get_enqueue_time_def
      Let_def)

section \<open>The \<open>threshold\<close> parameter (C9)\<close>

text \<open>The loop reads nothing of the parameters but \<open>interval\<close>.\<close>

lemma resync_interval_only:
  "interval p = interval p' \<Longrightarrow>
   cobalt_resync tbl p now vars nd = cobalt_resync tbl p' now vars nd"
proof (induction tbl p now vars nd rule: cobalt_resync.induct)
  case (1 tbl p now vars next_due)
  have body: "cobalt_resync_body tbl p vars = cobalt_resync_body tbl p' vars"
    using 1(2) by (simp add: cobalt_resync_body_def)
  show ?case
  proof (cases next_due)
    case True
    with 1 body show ?thesis
      by (subst (1 2) cobalt_resync.simps) (simp add: Let_def)
  next
    case False
    then show ?thesis by simp
  qed
qed

text \<open>
  C9. Two parameter records that agree on \<open>interval\<close>, \<open>target\<close>, \<open>p_inc\<close> and
  \<open>p_dec\<close>, so that only \<open>threshold\<close> may differ, give the same verdict and the same
  variables from \<open>cobalt_should_drop\<close>, and the same variables from
  \<open>cobalt_queue_full\<close> and \<open>cobalt_queue_empty\<close>, on every table, variables,
  timestamp, packet and random draw.
\<close>

theorem threshold_unused:
  assumes "interval p = interval p'" "target p = target p'"
    "p_inc p = p_inc p'" "p_dec p = p_dec p'"
  shows "cobalt_should_drop tbl vars p now skb r = cobalt_should_drop tbl vars p' now skb r \<and>
         cobalt_queue_full vars p now = cobalt_queue_full vars p' now \<and>
         cobalt_queue_empty vars p now = cobalt_queue_empty vars p' now"
proof -
  have "cobalt_resync tbl p now v nd = cobalt_resync tbl p' now v nd" for v nd
    using assms(1) by (rule resync_interval_only)
  with assms show ?thesis
    by (simp add: cobalt_should_drop_def cobalt_queue_full_def cobalt_queue_empty_def Let_def)
qed

theorem threshold_unused_witness:
  "cobalt_should_drop (replicate 16 0) vars_zero
     \<lparr>interval = 100, target = 5, threshold = 0, p_inc = 1, p_dec = 1\<rparr> 7
     \<lparr>enqueue_time = 0, ect = True\<rparr> 3
   = cobalt_should_drop (replicate 16 0) vars_zero
     \<lparr>interval = 100, target = 5, threshold = 99, p_inc = 1, p_dec = 1\<rparr> 7
     \<lparr>enqueue_time = 0, ect = True\<rparr> 3"
  using threshold_unused [of "\<lparr>interval = 100, target = 5, threshold = 0, p_inc = 1, p_dec = 1\<rparr>"
      "\<lparr>interval = 100, target = 5, threshold = 99, p_inc = 1, p_dec = 1\<rparr>"
      "replicate 16 0" vars_zero 7 "\<lparr>enqueue_time = 0, ect = True\<rparr>" 3]
  by simp

section \<open>The \<open>ecn_marked\<close> flag (C10)\<close>

text \<open>
  C10. After any call of \<open>cobalt_should_drop\<close>, \<open>ecn_marked\<close> is true exactly when
  \<open>next_due\<close> held on entry, the controller is in the dropping state (the state the
  call leaves, which is the one its test \<open>next_due && vars->dropping\<close> saw and is true
  exactly when the packet is over target), and \<open>INET_ECN_set_ce\<close> succeeded on the
  packet. The value \<open>ecn_marked\<close> had before the call changes nothing of the result.
\<close>

theorem ecn_marked_fresh:
  "ecn_marked (snd (cobalt_should_drop tbl vars p now skb r)) =
     (cobalt_next_due now vars \<and> dropping (snd (cobalt_should_drop tbl vars p now skb r))
        \<and> INET_ECN_set_ce skb)
   \<and> dropping (snd (cobalt_should_drop tbl vars p now skb r)) =
       (target p < now - cobalt_get_enqueue_time skb)
   \<and> cobalt_should_drop tbl (vars\<lparr>ecn_marked := b\<rparr>) p now skb r =
       cobalt_should_drop tbl vars p now skb r"
  by (simp add: cobalt_should_drop_def Let_def resync_frame cobalt_next_due_def
      split: prod.splits)


section \<open>Termination (C1)\<close>

text \<open>When the loop has run at all, \<open>next_due\<close> is false of the variables it returns.\<close>

lemma resync_exit:
  "nd \<Longrightarrow> \<not> cobalt_next_due now (cobalt_resync tbl p now vars nd)"
proof (induction tbl p now vars nd rule: cobalt_resync.induct)
  case (1 tbl p now vars next_due)
  define v1 where "v1 = cobalt_resync_body tbl p vars"
  have unfold: "cobalt_resync tbl p now vars next_due =
      cobalt_resync tbl p now v1 (cobalt_next_due now v1)"
    using 1(2) by (subst cobalt_resync.simps) (simp add: v1_def Let_def)
  show ?case
  proof (cases "cobalt_next_due now v1")
    case True
    with 1(1) [OF 1(2) refl] unfold show ?thesis by (simp add: v1_def)
  next
    case False
    with unfold show ?thesis by simp
  qed
qed

text \<open>
  Entered as \<open>cobalt_should_drop\<close> enters it (\<open>next_due\<close> only with a nonzero
  \<open>count\<close>), the loop runs its body some \<open>k\<close> times with \<open>k\<close> at most \<open>count\<close>;
  before each of these iterations \<open>count\<close> is nonzero, and the final \<open>count\<close> is
  the first one less \<open>k\<close>, as numbers.
\<close>

lemma resync_iterates:
  "nd \<longrightarrow> count vars \<noteq> 0 \<Longrightarrow>
   \<exists>k\<le>unat (count vars).
      cobalt_resync tbl p now vars nd = ((cobalt_resync_body tbl p) ^^ k) vars \<and>
      (\<forall>j<k. count (((cobalt_resync_body tbl p) ^^ j) vars) \<noteq> 0) \<and>
      unat (count (cobalt_resync tbl p now vars nd)) + k = unat (count vars)"
proof (induction tbl p now vars nd rule: cobalt_resync.induct)
  case (1 tbl p now vars next_due)
  show ?case
  proof (cases next_due)
    case False
    then show ?thesis by simp
  next
    case True
    define v1 where "v1 = cobalt_resync_body tbl p vars"
    define nd1 where "nd1 = cobalt_next_due now v1"
    from True 1(2) have nz: "count vars \<noteq> 0" by simp
    then have c1: "unat (count v1) = unat (count vars) - 1"
      by (simp add: v1_def unat_minus_one)
    from nz have pos: "0 < unat (count vars)" by (simp add: unat_gt_0)
    have unfold: "cobalt_resync tbl p now vars next_due = cobalt_resync tbl p now v1 nd1"
      using True by (subst cobalt_resync.simps) (simp add: v1_def nd1_def Let_def)
    have "cobalt_next_due now v1 \<longrightarrow> count v1 \<noteq> 0" by (simp add: cobalt_next_due_def)
    then have "\<exists>k\<le>unat (count v1).
      cobalt_resync tbl p now v1 nd1 = ((cobalt_resync_body tbl p) ^^ k) v1 \<and>
      (\<forall>j<k. count (((cobalt_resync_body tbl p) ^^ j) v1) \<noteq> 0) \<and>
      unat (count (cobalt_resync tbl p now v1 nd1)) + k = unat (count v1)"
      unfolding nd1_def v1_def by (rule 1(1) [OF True refl])
    then obtain k where k: "k \<le> unat (count v1)"
      "cobalt_resync tbl p now v1 nd1 = ((cobalt_resync_body tbl p) ^^ k) v1"
      "\<forall>j<k. count (((cobalt_resync_body tbl p) ^^ j) v1) \<noteq> 0"
      "unat (count (cobalt_resync tbl p now v1 nd1)) + k = unat (count v1)"
      by blast
    have "Suc k \<le> unat (count vars)" using k(1) c1 pos by simp
    moreover have "cobalt_resync tbl p now vars next_due = ((cobalt_resync_body tbl p) ^^ Suc k) vars"
      using unfold k(2) by (simp add: funpow_swap1 v1_def)
    moreover have "\<forall>j<Suc k. count (((cobalt_resync_body tbl p) ^^ j) vars) \<noteq> 0"
    proof (intro allI impI)
      fix j assume "j < Suc k"
      show "count (((cobalt_resync_body tbl p) ^^ j) vars) \<noteq> 0"
      proof (cases j)
        case 0
        with nz show ?thesis by simp
      next
        case (Suc j')
        with \<open>j < Suc k\<close> k(3) show ?thesis by (simp add: funpow_swap1 v1_def)
      qed
    qed
    moreover have "unat (count (cobalt_resync tbl p now vars next_due)) + Suc k = unat (count vars)"
      using unfold k(4) c1 pos by simp
    ultimately show ?thesis by blast
  qed
qed

text \<open>While entry 0 of the table is zero, neither function returns, at any depth.\<close>

lemma init_never_returns:
  "tbl ! 0 = 0 \<Longrightarrow> cobalt_vars_init n tbl = None \<and> cobalt_cache_init n tbl = None"
proof (induction n)
  case 0
  show ?case by simp
next
  case (Suc n)
  then show ?case by simp
qed

text \<open>Once entry 0 is nonzero, \<open>cobalt_vars_init\<close> zeroes the variables and leaves the table.\<close>

lemma init_returns_when_built:
  "tbl ! 0 \<noteq> 0 \<Longrightarrow> cobalt_vars_init (Suc n) tbl = Some (vars_zero, tbl)"
  by simp

text \<open>
  C1. Every call of \<open>cobalt_should_drop\<close>, \<open>cobalt_queue_full\<close> and
  \<open>cobalt_queue_empty\<close> returns (they are total functions here, the loop by its
  termination proof, and \<open>resync_iterates\<close> above bounds its iterations by
  \<open>count\<close>). The first \<open>cobalt_vars_init\<close> does not: on the table as the program
  starts, all zero, \<open>cobalt_vars_init\<close> and \<open>cobalt_cache_init\<close> return nothing at
  any call depth, because \<open>cobalt_cache_init\<close> calls \<open>cobalt_vars_init\<close> before it
  has written entry 0, the entry the guard reads.
\<close>

theorem first_init_diverges:
  "cobalt_vars_init n cache_zero = None \<and> cobalt_cache_init n cache_zero = None"
  by (rule init_never_returns) (simp add: cache_zero_def)


section \<open>Saturation of \<open>count\<close> and \<open>p_drop\<close> (C2)\<close>

text \<open>\<open>count++; if (!count) count--;\<close> adds one and stays at the largest \<open>u32\<close>.\<close>

lemma sat_inc_u32:
  fixes x :: u32
  shows "unat (if x + 1 = 0 then x + 1 - 1 else x + 1) = min (unat x + 1) (2 ^ 32 - 1)"
proof (cases "x + 1 = 0")
  case True
  then have "x = - 1" by (simp add: eq_neg_iff_add_eq_0)
  then have "unat x = 2 ^ 32 - 1"
    by (simp add: unsigned_minus_1_eq_mask mask_eq_exp_minus_1)
  with True show ?thesis
    by (simp add: unsigned_minus_1_eq_mask mask_eq_exp_minus_1)
next
  case False
  then have eq: "unat (x + 1) = Suc (unat x)" by (simp add: add.commute unatSuc)
  have "unat (x + 1) < 2 ^ 32" using unsigned_less [of "x + 1"] by simp
  with eq False show ?thesis by simp
qed

text \<open>
  What one call of \<open>cobalt_should_drop\<close> does to \<open>count\<close>, in its three cases: the
  packet is acted on, the packet is over target but nothing is due, the packet is not
  over target and the loop may run.
\<close>

lemma should_drop_count:
  "(if cobalt_next_due now v \<and> target p < now - cobalt_get_enqueue_time skb
    then unat (count (snd (cobalt_should_drop tbl v p now skb r))) =
           min (unat (count v) + 1) (2 ^ 32 - 1)
    else if target p < now - cobalt_get_enqueue_time skb
    then count (snd (cobalt_should_drop tbl v p now skb r)) = (if count v = 0 then 1 else count v)
    else (\<exists>k\<le>unat (count v).
            snd (cobalt_should_drop tbl v p now skb r) =
              ((cobalt_resync_body tbl p) ^^ k) (v\<lparr>ecn_marked := False, dropping := False\<rparr>) \<and>
            (\<forall>j<k. count (((cobalt_resync_body tbl p) ^^ j)
                             (v\<lparr>ecn_marked := False, dropping := False\<rparr>)) \<noteq> 0) \<and>
            unat (count (snd (cobalt_should_drop tbl v p now skb r))) + k = unat (count v)))"
proof -
  let ?over = "target p < now - cobalt_get_enqueue_time skb"
  let ?v0 = "v\<lparr>ecn_marked := False, dropping := False\<rparr>"
  consider (act) "cobalt_next_due now v" ?over | (wait) "\<not> cobalt_next_due now v" ?over
    | (under) "\<not> ?over" by blast
  then show ?thesis
  proof cases
    case act
    then have nz: "count v \<noteq> 0" by (simp add: cobalt_next_due_def)
    have "unat (if count v + 1 = 0 then count v + 1 - 1 else count v + 1)
            = min (unat (count v) + 1) (2 ^ 32 - 1)"
      by (rule sat_inc_u32)
    with act nz show ?thesis
      by (simp add: cobalt_should_drop_def cobalt_next_due_def Let_def split: if_splits)
  next
    case wait
    then show ?thesis
      by (auto simp: cobalt_should_drop_def cobalt_next_due_def Let_def)
  next
    case under
    have b: "v\<lparr>ecn_marked := False\<rparr> = ?v0" if "\<not> dropping v"
      using that by simp
    have res: "snd (cobalt_should_drop tbl v p now skb r) =
                 cobalt_resync tbl p now ?v0 (cobalt_next_due now v)"
    proof (cases "dropping v")
      case True
      with under show ?thesis
        by (simp add: cobalt_should_drop_def cobalt_next_due_def Let_def split: prod.splits)
    next
      case False
      with under have "snd (cobalt_should_drop tbl v p now skb r) =
          cobalt_resync tbl p now (v\<lparr>ecn_marked := False\<rparr>) (cobalt_next_due now v)"
        by (simp add: cobalt_should_drop_def cobalt_next_due_def Let_def split: prod.splits)
      then show ?thesis by (simp only: b [OF False, symmetric])
    qed
    have "cobalt_next_due now v \<longrightarrow> count ?v0 \<noteq> 0" by (simp add: cobalt_next_due_def)
    from resync_iterates [OF this, of tbl p now]
    show ?thesis using under res by simp
  qed
qed

text \<open>
  C2. Let \<open>v\<close> be the variables after any sequence of calls of the three entry
  points, from zeroed variables. Then for the next call, whatever it is:
  \<^item> \<open>cobalt_queue_full\<close> leaves \<open>p_drop\<close> at \<open>min (p_drop + p_inc) (2^32 - 1)\<close> as
    numbers, or as it was when the update is not due, and turns a \<open>count\<close> of 0 into 1;
  \<^item> \<open>cobalt_queue_empty\<close> leaves \<open>p_drop\<close> at the difference with \<open>p_dec\<close> that
    stops at 0, or as it was, and leaves \<open>count\<close>;
  \<^item> \<open>cobalt_should_drop\<close> leaves \<open>p_drop\<close>; when it acts on the packet \<open>count\<close>
    becomes \<open>min (count + 1) (2^32 - 1)\<close>; when the packet is over target and nothing
    is due, a \<open>count\<close> of 0 becomes 1 and any other stays; otherwise the loop runs
    some \<open>k\<close> iterations, \<open>k\<close> at most \<open>count\<close>, each of them decrementing a
    nonzero \<open>count\<close>, and the new \<open>count\<close> is the old one less \<open>k\<close> as numbers.
  So no operation on \<open>count\<close> or \<open>p_drop\<close> wraps around.
\<close>

theorem count_p_drop_never_wrap:
  fixes tbl p es now skb r
  defines "v \<equiv> cobalt_run tbl p vars_zero es"
  shows
  "unat (p_drop (cobalt_queue_full v p now)) =
      (if target p < now - blue_timer v
       then min (unat (p_drop v) + unat (p_inc p)) (2 ^ 32 - 1) else unat (p_drop v))
   \<and> count (cobalt_queue_full v p now) = (if count v = 0 then 1 else count v)
   \<and> unat (p_drop (cobalt_queue_empty v p now)) =
      (if target p < now - blue_timer v
       then unat (p_drop v) - unat (p_dec p) else unat (p_drop v))
   \<and> count (cobalt_queue_empty v p now) = count v
   \<and> p_drop (snd (cobalt_should_drop tbl v p now skb r)) = p_drop v
   \<and> (if cobalt_next_due now v \<and> target p < now - cobalt_get_enqueue_time skb
      then unat (count (snd (cobalt_should_drop tbl v p now skb r))) =
             min (unat (count v) + 1) (2 ^ 32 - 1)
      else if target p < now - cobalt_get_enqueue_time skb
      then count (snd (cobalt_should_drop tbl v p now skb r)) = (if count v = 0 then 1 else count v)
      else (\<exists>k\<le>unat (count v).
              snd (cobalt_should_drop tbl v p now skb r) =
                ((cobalt_resync_body tbl p) ^^ k) (v\<lparr>ecn_marked := False, dropping := False\<rparr>) \<and>
              (\<forall>j<k. count (((cobalt_resync_body tbl p) ^^ j)
                               (v\<lparr>ecn_marked := False, dropping := False\<rparr>)) \<noteq> 0) \<and>
              unat (count (snd (cobalt_should_drop tbl v p now skb r))) + k = unat (count v)))"
proof -
  have full: "unat (if p_drop v + p_inc p < p_inc p then NOT 0 else p_drop v + p_inc p)
          = min (unat (p_drop v) + unat (p_inc p)) (2 ^ 32 - 1)"
    by (rule sat_add_u32)
  have empty: "unat (if p_drop v < p_dec p then 0 else p_drop v - p_dec p)
          = unat (p_drop v) - unat (p_dec p)"
    by (rule floor_sub_u32)
  have 1: "unat (p_drop (cobalt_queue_full v p now)) =
      (if target p < now - blue_timer v
       then min (unat (p_drop v) + unat (p_inc p)) (2 ^ 32 - 1) else unat (p_drop v))"
    using full by (simp add: cobalt_queue_full_def Let_def del: bit.compl_zero split: if_splits)
  have 2: "count (cobalt_queue_full v p now) = (if count v = 0 then 1 else count v)"
    by (simp add: cobalt_queue_full_def Let_def)
  have 3: "unat (p_drop (cobalt_queue_empty v p now)) =
      (if target p < now - blue_timer v
       then unat (p_drop v) - unat (p_dec p) else unat (p_drop v))"
    using empty by (simp add: cobalt_queue_empty_def Let_def split: if_splits)
  have 4: "count (cobalt_queue_empty v p now) = count v"
    by (simp add: cobalt_queue_empty_def Let_def)
  have 5: "p_drop (snd (cobalt_should_drop tbl v p now skb r)) = p_drop v"
    by (simp add: cobalt_should_drop_def Let_def resync_frame split: prod.splits)
  from 1 2 3 4 5 should_drop_count [of now v p skb tbl r] show ?thesis
    by (intro conjI)
qed




theorem count_p_drop_never_wrap_witness:
  "unat (p_drop (cobalt_queue_full
       (cobalt_run cache_zero
          \<lparr>interval = 100, target = 5, threshold = 0, p_inc = 0x80000000, p_dec = 1\<rparr>
          vars_zero [Queue_full 10, Queue_full 20, Queue_empty 21])
       \<lparr>interval = 100, target = 5, threshold = 0, p_inc = 0x80000000, p_dec = 1\<rparr> 30))
     = 4294967295
   \<and> unat (p_drop (cobalt_queue_empty
       (cobalt_run cache_zero
          \<lparr>interval = 100, target = 5, threshold = 0, p_inc = 0x80000000, p_dec = 1\<rparr>
          vars_zero [Queue_full 10, Queue_full 20, Queue_empty 21])
       \<lparr>interval = 100, target = 5, threshold = 0, p_inc = 0x80000000, p_dec = 1\<rparr> 30))
     = 4294967294
   \<and> (\<exists>k\<le>1. unat (count (snd (cobalt_should_drop cache_zero
       (cobalt_run cache_zero
          \<lparr>interval = 100, target = 5, threshold = 0, p_inc = 0x80000000, p_dec = 1\<rparr>
          vars_zero [Queue_full 10, Queue_full 20, Queue_empty 21])
       \<lparr>interval = 100, target = 5, threshold = 0, p_inc = 0x80000000, p_dec = 1\<rparr> 30
       \<lparr>enqueue_time = 29, ect = False\<rparr> 0))) + k = 1)"
proof -
  let ?P = "\<lparr>interval = 100, target = 5, threshold = 0, p_inc = 0x80000000, p_dec = 1\<rparr>"
  let ?V = "cobalt_run cache_zero ?P vars_zero [Queue_full 10, Queue_full 20, Queue_empty 21]"
  have v: "?V = \<lparr>count = 1, rec_inv_sqrt = 0, drop_next = 20, blue_timer = 20,
                  p_drop = 0xFFFFFFFF, dropping = False, ecn_marked = False\<rparr>"
    by (simp add: cobalt_run_def cobalt_queue_full_def cobalt_queue_empty_def vars_zero_def)
  have "\<not> target ?P < 30 - cobalt_get_enqueue_time \<lparr>enqueue_time = 29, ect = False\<rparr>"
    by (simp add: cobalt_get_enqueue_time_def)
  with count_p_drop_never_wrap [of cache_zero ?P "[Queue_full 10, Queue_full 20, Queue_empty 21]"
      30 "\<lparr>enqueue_time = 29, ect = False\<rparr>" 0]
  show ?thesis
    unfolding v by simp blast
qed


section \<open>The table that is never built (C5)\<close>

text \<open>The general path with its constants and shifts worked out.\<close>

lemma Newton_general_unfold:
  "Newton_general cnt r =
     ucast (drop_bit 31 (drop_bit 2 ((12884901888 :: u64) -
       ucast cnt * ucast (ucast (drop_bit 32 ((ucast r :: u64) * ucast r)) :: u32)) * ucast r))"
  by (simp add: Newton_general_def REC_INV_SQRT_SHIFT_def REC_INV_SQRT_BITS_def Let_def)

lemma funpow4: "(f ^^ 4) x = f (f (f (f x)))"
  by (simp add: numeral_eq_Suc)

lemma rec_inv_sqrt_spec_Suc:
  "rec_inv_sqrt_spec (Suc n) =
     Newton_general (of_nat (Suc n)) (Newton_general (of_nat (Suc n))
       (Newton_general (of_nat (Suc n)) (Newton_general (of_nat (Suc n)) (rec_inv_sqrt_spec n))))"
  by (simp add: funpow4)

text \<open>The sixteen reference values, each computed from the one before.\<close>

lemma rec_inv_sqrt_spec_values:
  "rec_inv_sqrt_spec 0 = 4294967295"
  "rec_inv_sqrt_spec 1 = 4294967295"
  "rec_inv_sqrt_spec 2 = 3035289760"
  "rec_inv_sqrt_spec 3 = 2479700455"
  "rec_inv_sqrt_spec 4 = 2147483647"
  "rec_inv_sqrt_spec 5 = 1920767767"
  "rec_inv_sqrt_spec 6 = 1753413055"
  "rec_inv_sqrt_spec 7 = 1623345051"
  "rec_inv_sqrt_spec 8 = 1518500250"
  "rec_inv_sqrt_spec 9 = 1431655765"
  "rec_inv_sqrt_spec 10 = 1358187914"
  "rec_inv_sqrt_spec 11 = 1294981364"
  "rec_inv_sqrt_spec 12 = 1239850263"
  "rec_inv_sqrt_spec 13 = 1191209601"
  "rec_inv_sqrt_spec 14 = 1147878294"
  "rec_inv_sqrt_spec 15 = 1108955788"
proof -
  show v0: "rec_inv_sqrt_spec 0 = 4294967295" by simp
  have "rec_inv_sqrt_spec (Suc 0) = 4294967295"
    by (simp only: rec_inv_sqrt_spec_Suc v0) (simp add: Newton_general_unfold)
  then show v1: "rec_inv_sqrt_spec 1 = 4294967295"
    by (simp del: rec_inv_sqrt_spec.simps)
  have "rec_inv_sqrt_spec (Suc 1) = 3035289760"
    by (simp only: rec_inv_sqrt_spec_Suc v1) (simp add: Newton_general_unfold)
  then show v2: "rec_inv_sqrt_spec 2 = 3035289760"
    by (simp add: numeral_2_eq_2 del: rec_inv_sqrt_spec.simps)
  have "rec_inv_sqrt_spec (Suc 2) = 2479700455"
    by (simp only: rec_inv_sqrt_spec_Suc v2) (simp add: Newton_general_unfold)
  then show v3: "rec_inv_sqrt_spec 3 = 2479700455"
    by (simp del: rec_inv_sqrt_spec.simps)
  have "rec_inv_sqrt_spec (Suc 3) = 2147483647"
    by (simp only: rec_inv_sqrt_spec_Suc v3) (simp add: Newton_general_unfold)
  then show v4: "rec_inv_sqrt_spec 4 = 2147483647"
    by (simp del: rec_inv_sqrt_spec.simps)
  have "rec_inv_sqrt_spec (Suc 4) = 1920767767"
    by (simp only: rec_inv_sqrt_spec_Suc v4) (simp add: Newton_general_unfold)
  then show v5: "rec_inv_sqrt_spec 5 = 1920767767"
    by (simp del: rec_inv_sqrt_spec.simps)
  have "rec_inv_sqrt_spec (Suc 5) = 1753413055"
    by (simp only: rec_inv_sqrt_spec_Suc v5) (simp add: Newton_general_unfold)
  then show v6: "rec_inv_sqrt_spec 6 = 1753413055"
    by (simp del: rec_inv_sqrt_spec.simps)
  have "rec_inv_sqrt_spec (Suc 6) = 1623345051"
    by (simp only: rec_inv_sqrt_spec_Suc v6) (simp add: Newton_general_unfold)
  then show v7: "rec_inv_sqrt_spec 7 = 1623345051"
    by (simp del: rec_inv_sqrt_spec.simps)
  have "rec_inv_sqrt_spec (Suc 7) = 1518500250"
    by (simp only: rec_inv_sqrt_spec_Suc v7) (simp add: Newton_general_unfold)
  then show v8: "rec_inv_sqrt_spec 8 = 1518500250"
    by (simp del: rec_inv_sqrt_spec.simps)
  have "rec_inv_sqrt_spec (Suc 8) = 1431655765"
    by (simp only: rec_inv_sqrt_spec_Suc v8) (simp add: Newton_general_unfold)
  then show v9: "rec_inv_sqrt_spec 9 = 1431655765"
    by (simp del: rec_inv_sqrt_spec.simps)
  have "rec_inv_sqrt_spec (Suc 9) = 1358187914"
    by (simp only: rec_inv_sqrt_spec_Suc v9) (simp add: Newton_general_unfold)
  then show v10: "rec_inv_sqrt_spec 10 = 1358187914"
    by (simp del: rec_inv_sqrt_spec.simps)
  have "rec_inv_sqrt_spec (Suc 10) = 1294981364"
    by (simp only: rec_inv_sqrt_spec_Suc v10) (simp add: Newton_general_unfold)
  then show v11: "rec_inv_sqrt_spec 11 = 1294981364"
    by (simp del: rec_inv_sqrt_spec.simps)
  have "rec_inv_sqrt_spec (Suc 11) = 1239850263"
    by (simp only: rec_inv_sqrt_spec_Suc v11) (simp add: Newton_general_unfold)
  then show v12: "rec_inv_sqrt_spec 12 = 1239850263"
    by (simp del: rec_inv_sqrt_spec.simps)
  have "rec_inv_sqrt_spec (Suc 12) = 1191209601"
    by (simp only: rec_inv_sqrt_spec_Suc v12) (simp add: Newton_general_unfold)
  then show v13: "rec_inv_sqrt_spec 13 = 1191209601"
    by (simp del: rec_inv_sqrt_spec.simps)
  have "rec_inv_sqrt_spec (Suc 13) = 1147878294"
    by (simp only: rec_inv_sqrt_spec_Suc v13) (simp add: Newton_general_unfold)
  then show v14: "rec_inv_sqrt_spec 14 = 1147878294"
    by (simp del: rec_inv_sqrt_spec.simps)
  have "rec_inv_sqrt_spec (Suc 14) = 1108955788"
    by (simp only: rec_inv_sqrt_spec_Suc v14) (simp add: Newton_general_unfold)
  then show v15: "rec_inv_sqrt_spec 15 = 1108955788"
    by (simp del: rec_inv_sqrt_spec.simps)
qed


lemma Newton_step_general:
  "tbl ! unat (count v) = 0 \<Longrightarrow>
   cobalt_Newton_step tbl v = v\<lparr>rec_inv_sqrt := Newton_general (count v) (rec_inv_sqrt v)\<rparr>"
  by (simp add: cobalt_Newton_step_def)

lemma Newton_step_lookup:
  "count v < 16 \<Longrightarrow> tbl ! unat (count v) \<noteq> 0 \<Longrightarrow>
   cobalt_Newton_step tbl v = v\<lparr>rec_inv_sqrt := tbl ! unat (count v)\<rparr>"
  by (simp add: cobalt_Newton_step_def REC_INV_SQRT_CACHE_def)

text \<open>
  The invariant of the \<open>for\<close> loop: before the iteration for \<open>count = k\<close> the
  entries below \<open>k\<close> hold the reference values, those from \<open>k\<close> on are still zero (so
  \<open>cobalt_Newton_step\<close> takes its general path), and the estimate is the reference value
  for \<open>k - 1\<close>.
\<close>

lemma cache_loop_inv:
  assumes "16 - k = n" "length tbl = 16" "count v = of_nat k" "1 \<le> k" "k \<le> 16"
    "rec_inv_sqrt v = rec_inv_sqrt_spec (k - 1)"
    "\<forall>j<k. tbl ! j = rec_inv_sqrt_spec j"
    "\<forall>j. k \<le> j \<and> j < 16 \<longrightarrow> tbl ! j = 0"
  shows "\<forall>c<16. snd (cobalt_cache_loop v tbl) ! c = rec_inv_sqrt_spec c"
  using assms
proof (induction n arbitrary: k v tbl)
  case 0
  then have k: "k = 16" by simp
  with 0 have "\<not> count v < REC_INV_SQRT_CACHE" by (simp add: REC_INV_SQRT_CACHE_def)
  then have "cobalt_cache_loop v tbl = (v, tbl)" by (subst cobalt_cache_loop.simps) simp
  with 0 k show ?case by simp
next
  case (Suc n)
  then have k: "k < 16" by simp
  then have uk: "unat (count v) = k" using Suc.prems(3) by (simp add: unat_of_nat)
  have lt: "count v < REC_INV_SQRT_CACHE"
    using k uk by (simp add: REC_INV_SQRT_CACHE_def word_less_nat_alt)
  have zero: "tbl ! k = 0" using Suc.prems(8) k by simp
  define v4 where "v4 = cobalt_Newton_step tbl (cobalt_Newton_step tbl
                          (cobalt_Newton_step tbl (cobalt_Newton_step tbl v)))"
  have v4: "v4 = v\<lparr>rec_inv_sqrt := rec_inv_sqrt_spec k\<rparr>"
  proof -
    from \<open>1 \<le> k\<close> obtain k' where k': "k = Suc k'" by (cases k) simp_all
    have "v4 = v\<lparr>rec_inv_sqrt := ((Newton_general (count v)) ^^ 4) (rec_inv_sqrt v)\<rparr>"
      using zero uk by (simp add: v4_def Newton_step_general numeral_eq_Suc)
    also have "\<dots> = v\<lparr>rec_inv_sqrt := rec_inv_sqrt_spec k\<rparr>"
      using Suc.prems(3,6) k' by simp
    finally show ?thesis .
  qed
  define tbl' where "tbl' = tbl[k := rec_inv_sqrt_spec k]"
  define v' where "v' = v4\<lparr>count := count v4 + 1\<rparr>"
  have step: "cobalt_cache_loop v tbl = cobalt_cache_loop v' tbl'"
    using lt uk by (subst cobalt_cache_loop.simps) (simp add: Let_def v4_def [symmetric] v4 v'_def tbl'_def)
  have "\<forall>c<16. snd (cobalt_cache_loop v' tbl') ! c = rec_inv_sqrt_spec c"
  proof (rule Suc.IH [of "Suc k"])
    show "16 - Suc k = n" using Suc.prems(1) by simp
    show "length tbl' = 16" using Suc.prems(2) by (simp add: tbl'_def)
    show "count v' = of_nat (Suc k)" using Suc.prems(3) by (simp add: v'_def v4)
    show "1 \<le> Suc k" by simp
    show "Suc k \<le> 16" using k by simp
    show "rec_inv_sqrt v' = rec_inv_sqrt_spec (Suc k - 1)" by (simp add: v'_def v4)
    show "\<forall>j<Suc k. tbl' ! j = rec_inv_sqrt_spec j"
      using Suc.prems(2,7) k by (auto simp: tbl'_def nth_list_update less_Suc_eq)
    show "\<forall>j. Suc k \<le> j \<and> j < 16 \<longrightarrow> tbl' ! j = 0"
      using Suc.prems(2,8) by (auto simp: tbl'_def nth_list_update)
  qed
  with step show ?case by simp
qed


lemma rec_inv_sqrt_spec_nonzero: "c < 16 \<Longrightarrow> rec_inv_sqrt_spec c \<noteq> 0"
proof -
  assume "c < 16"
  then have "c = 0 \<or> c = 1 \<or> c = 2 \<or> c = 3 \<or> c = 4 \<or> c = 5 \<or> c = 6 \<or> c = 7 \<or>
             c = 8 \<or> c = 9 \<or> c = 10 \<or> c = 11 \<or> c = 12 \<or> c = 13 \<or> c = 14 \<or> c = 15"
    by arith
  then show ?thesis
    using rec_inv_sqrt_spec_values by (elim disjE) (simp_all del: rec_inv_sqrt_spec.simps)
qed

lemma cache_fill_table:
  assumes "length tbl = 16" "\<forall>j. 1 \<le> j \<and> j < 16 \<longrightarrow> tbl ! j = 0"
  shows "\<forall>c<16. cobalt_cache_fill v tbl ! c = rec_inv_sqrt_spec c"
proof -
  let ?v = "v\<lparr>rec_inv_sqrt := NOT 0, count := 1\<rparr>"
  let ?tbl = "tbl[0 := NOT 0]"
  have fill: "cobalt_cache_fill v tbl = snd (cobalt_cache_loop ?v ?tbl)"
    by (simp add: cobalt_cache_fill_def REC_INV_SQRT_SHIFT_def REC_INV_SQRT_BITS_def Let_def)
  have "\<forall>c<16. snd (cobalt_cache_loop ?v ?tbl) ! c = rec_inv_sqrt_spec c"
  proof (rule cache_loop_inv [of 1 15])
    show "16 - (1::nat) = 15" by simp
    show "length ?tbl = 16" using assms(1) by simp
    show "count ?v = of_nat 1" by simp
    show "(1::nat) \<le> 1" by simp
    show "(1::nat) \<le> 16" by simp
    show "rec_inv_sqrt ?v = rec_inv_sqrt_spec (1 - 1)" by simp
    show "\<forall>j<1. ?tbl ! j = rec_inv_sqrt_spec j" using assms(1) by simp
    show "\<forall>j. 1 \<le> j \<and> j < 16 \<longrightarrow> ?tbl ! j = 0" using assms by simp
  qed
  with fill show ?thesis by simp
qed

text \<open>
  The construction code taken alone is right: on a table of 16 entries whose entries 1
  to 15 are zero, the body of \<open>cobalt_cache_init\<close> after its first statement leaves
  at every \<open>c\<close> in 0..15 the reference value, and on that table
  \<open>cobalt_Newton_step\<close> at \<open>count = c\<close> takes the lookup path and yields the same
  value, whatever the estimate was.
\<close>

lemma cache_fill_is_general_path:
  assumes "length tbl = 16" "\<forall>j. 1 \<le> j \<and> j < 16 \<longrightarrow> tbl ! j = 0" "c < 16"
  shows "cobalt_cache_fill v tbl ! c = rec_inv_sqrt_spec c
       \<and> (count vars = of_nat c \<longrightarrow>
            rec_inv_sqrt (cobalt_Newton_step (cobalt_cache_fill v tbl) vars) = rec_inv_sqrt_spec c)"
proof (intro conjI impI)
  show 1: "cobalt_cache_fill v tbl ! c = rec_inv_sqrt_spec c"
    using cache_fill_table [OF assms(1,2)] assms(3) by simp
  show "rec_inv_sqrt (cobalt_Newton_step (cobalt_cache_fill v tbl) vars) = rec_inv_sqrt_spec c"
    if "count vars = of_nat c"
  proof -
    from assms(3) that have u: "unat (count vars) = c" by (simp add: unat_of_nat)
    with assms(3) have lt: "count vars < 16" by (simp add: word_less_nat_alt)
    from 1 rec_inv_sqrt_spec_nonzero [OF assms(3)] u
    have "cobalt_cache_fill v tbl ! unat (count vars) \<noteq> 0" by simp
    with lt u 1 show ?thesis by (simp add: Newton_step_lookup)
  qed
qed

text \<open>
  But no call of \<open>cobalt_vars_init\<close> ever runs that code to its end: a call either
  does not return (entry 0 is zero) or returns at once with the table as it found it.
\<close>

lemma vars_init_cases:
  "cobalt_vars_init (Suc n) tbl = (if tbl ! 0 = 0 then None else Some (vars_zero, tbl))"
proof (cases "tbl ! 0 = 0")
  case True
  with init_never_returns [OF True, of "Suc n"] show ?thesis by simp
next
  case False
  then show ?thesis by simp
qed

lemma cache_zero_nth: "c < 16 \<Longrightarrow> cache_zero ! c = 0"
  by (simp add: cache_zero_def)

text \<open>
  C5. The code does not meet the claim. From the table as the program starts,
  \<open>cobalt_cache_init\<close> returns at no call depth (the recursion of C1), so the table
  is never built: every entry \<open>c\<close> in 0..15 stays 0, while the reference value for
  \<open>c\<close> (the seed \<open>~0\<close> at \<open>count = 0\<close>, then four general-path Newton steps per
  increment of \<open>count\<close>) is never 0. On that table \<open>cobalt_Newton_step\<close> never takes
  the lookup path: at every \<open>count\<close> it runs one general step on the current estimate.
\<close>

theorem table_never_built:
  "cobalt_cache_init n cache_zero = None
   \<and> cobalt_Newton_step cache_zero vars =
       vars\<lparr>rec_inv_sqrt := Newton_general (count vars) (rec_inv_sqrt vars)\<rparr>
   \<and> (c < 16 \<longrightarrow> cache_zero ! c = 0 \<and> rec_inv_sqrt_spec c \<noteq> 0)"
proof (intro conjI impI)
  show "cobalt_cache_init n cache_zero = None"
    using init_never_returns [of cache_zero n] by (simp add: cache_zero_def)
  show "cobalt_Newton_step cache_zero vars =
          vars\<lparr>rec_inv_sqrt := Newton_general (count vars) (rec_inv_sqrt vars)\<rparr>"
  proof (cases "count vars < 16")
    case True
    then have "unat (count vars) < 16" by (simp add: word_less_nat_alt)
    then have "cache_zero ! unat (count vars) = 0" by (rule cache_zero_nth)
    then show ?thesis by (rule Newton_step_general)
  next
    case False
    then show ?thesis by (simp add: cobalt_Newton_step_def REC_INV_SQRT_CACHE_def)
  qed
  show "cache_zero ! c = 0" if "c < 16" using that by (rule cache_zero_nth)
  show "rec_inv_sqrt_spec c \<noteq> 0" if "c < 16" using that by (rule rec_inv_sqrt_spec_nonzero)
qed

theorem table_never_built_witness:
  "cobalt_cache_init 5 cache_zero = None
   \<and> cache_zero ! 2 = 0 \<and> rec_inv_sqrt_spec 2 = 3035289760
   \<and> cobalt_Newton_step cache_zero (vars_zero\<lparr>count := 2\<rparr>) = vars_zero\<lparr>count := 2\<rparr>"
proof -
  have g: "Newton_general 2 0 = 0" by (simp add: Newton_general_unfold)
  from table_never_built [of 5 "vars_zero\<lparr>count := 2\<rparr>" 2] rec_inv_sqrt_spec_values(3) g
  show ?thesis by (simp add: vars_zero_def del: rec_inv_sqrt_spec.simps)
qed

section \<open>Successive packets over target (C8)\<close>

text \<open>A \<open>u32\<close> widened to \<open>u64\<close> keeps its value and is not negative as an \<open>s64\<close>.\<close>

lemma uint_ucast_32_64: "uint (ucast (x :: u32) :: u64) = uint x"
proof -
  have "uint x < 2 ^ 32" using uint_lt2p [of x] by simp
  then have "uint x < 2 ^ 64" by simp
  then show ?thesis
    by (simp add: unsigned_ucast_eq take_bit_int_eq_self)
qed

lemma sint_ucast_32_64: "sint (ucast (x :: u32) :: u64) = uint x"
proof -
  have "uint x < 2 ^ 32" using uint_lt2p [of x] by simp
  then have "uint x < 2 ^ 63" by simp
  moreover have "- (2 ^ 63) \<le> uint x" by (rule order_trans [of _ 0]) simp_all
  ultimately have "signed_take_bit 63 (uint x) = uint x"
    by (simp add: signed_take_bit_int_eq_self)
  then show ?thesis by (simp add: sint_uint uint_ucast_32_64)
qed

lemma ucast_u32_nonneg: "0 \<le>s (ucast (x :: u32) :: u64)"
  by (simp add: word_sle_eq sint_ucast_32_64)

lemma unat_ucast_32_64: "unat (ucast (x :: u32) :: u64) = unat x"
proof -
  have "unat (ucast x :: u64) = nat (uint (ucast x :: u64))" by (rule unat_eq_nat_uint)
  also have "\<dots> = nat (uint x)" by (simp only: uint_ucast_32_64)
  also have "\<dots> = unat x" by (rule unat_eq_nat_uint [symmetric])
  finally show ?thesis .
qed

lemma add_u32_no_wrap:
  fixes t :: u64 and x :: u32
  assumes "unat t + 2 ^ 32 \<le> 2 ^ 64"
  shows "t \<le> t + ucast x"
proof -
  have "unat x < 2 ^ 32" using unsigned_less [of x] by simp
  with assms have "unat t + unat (ucast x :: u64) < 2 ^ 64"
    by (simp add: unat_ucast_32_64)
  then show ?thesis using no_olen_add_nat [of t "ucast x"] by simp
qed


text \<open>The state a call leaves is the dropping state exactly when its packet was over target.\<close>

lemma should_drop_dropping:
  "dropping (snd (cobalt_should_drop tbl v p now skb r)) =
     (target p < now - cobalt_get_enqueue_time skb)"
  by (simp add: cobalt_should_drop_def Let_def resync_frame split: prod.splits)

lemma run_stays_dropping:
  "dropping v0 \<Longrightarrow> \<forall>e\<in>set es. over_target p e \<Longrightarrow> dropping (cobalt_run tbl p v0 es)"
proof (induction es arbitrary: v0)
  case Nil
  then show ?case by (simp add: cobalt_run_def)
next
  case (Cons e es)
  from Cons.prems(2) have "over_target p e" by simp
  then have "dropping (cobalt_step tbl p v0 e)"
    by (cases e) (simp_all add: over_target_def should_drop_dropping)
  with Cons.IH [of "cobalt_step tbl p v0 e"] Cons.prems(2) show ?case
    by (simp add: cobalt_run_def)
qed

text \<open>One call in the dropping state, for a packet over target, written out.\<close>

lemma should_drop_while_dropping:
  assumes "dropping v" "target p < now - cobalt_get_enqueue_time skb"
  shows "snd (cobalt_should_drop tbl v p now skb r) =
     (if cobalt_next_due now v
      then (let v1 = v\<lparr>ecn_marked := INET_ECN_set_ce skb,
                       count := (if count v + 1 = 0 then count v + 1 - 1 else count v + 1)\<rparr>;
                v2 = cobalt_Newton_step tbl v1
            in v2\<lparr>drop_next := cobalt_control_law (drop_next v) (interval p) (rec_inv_sqrt v2)\<rparr>)
      else v\<lparr>ecn_marked := False, count := (if count v = 0 then 1 else count v)\<rparr>)"
  using assms
  by (auto simp: cobalt_should_drop_def cobalt_next_due_def Let_def split: prod.splits)

text \<open>
  C8, as amended. Start in the dropping state and make any sequence of
  \<open>cobalt_should_drop\<close> calls whose packets are all over target. Then the controller
  is in the dropping state before and after each call, \<open>count\<close> never decreases, and
  for each call:
  \<^item> if an action is due on entry (\<open>count\<close> is nonzero and \<open>now - drop_next\<close> is not
    negative as an \<open>s64\<close>), \<open>count\<close> becomes \<open>min (count + 1) (2^32 - 1)\<close>, which
    is a strict increase unless \<open>count\<close> is already the largest \<open>u32\<close>, and
    \<open>drop_next\<close> moves forward by \<open>reciprocal_scale(interval, rec_inv_sqrt)\<close>, with
    the new \<open>rec_inv_sqrt\<close>: the step is a \<open>u32\<close>, so the signed difference of new
    and old \<open>drop_next\<close> is not negative, and the new \<open>drop_next\<close> is not below the
    old one unless the \<open>u64\<close> clock is within \<open>2^32\<close> of wrapping;
  \<^item> if no action is due, \<open>drop_next\<close> stays and \<open>count\<close> stays (a \<open>count\<close> of
    0 becomes 1).
\<close>

theorem dropping_advances_when_due:
  fixes tbl p v0 es now skb r
  defines "v \<equiv> cobalt_run tbl p v0 es"
  defines "v' \<equiv> snd (cobalt_should_drop tbl (cobalt_run tbl p v0 es) p now skb r)"
  assumes "dropping v0" "\<forall>e\<in>set es. over_target p e"
    "target p < now - cobalt_get_enqueue_time skb"
  shows "dropping v \<and> dropping v'
     \<and> (if cobalt_next_due now v
        then unat (count v') = min (unat (count v) + 1) (2 ^ 32 - 1)
           \<and> (count v \<noteq> NOT 0 \<longrightarrow> count v < count v')
           \<and> drop_next v' =
               drop_next v + ucast (reciprocal_scale (ucast (interval p)) (rec_inv_sqrt v'))
           \<and> 0 \<le>s drop_next v' - drop_next v
           \<and> (unat (drop_next v) + 2 ^ 32 \<le> 2 ^ 64 \<longrightarrow> drop_next v \<le> drop_next v')
        else count v' = (if count v = 0 then 1 else count v) \<and> drop_next v' = drop_next v)
     \<and> count v \<le> count v'"
proof -
  have d: "dropping v" unfolding v_def using assms(3,4) by (rule run_stays_dropping)
  have d': "dropping v'" unfolding v'_def using assms(5) by (simp add: should_drop_dropping)
  have eq: "v' =
     (if cobalt_next_due now v
      then (let v1 = v\<lparr>ecn_marked := INET_ECN_set_ce skb,
                       count := (if count v + 1 = 0 then count v + 1 - 1 else count v + 1)\<rparr>;
                v2 = cobalt_Newton_step tbl v1
            in v2\<lparr>drop_next := cobalt_control_law (drop_next v) (interval p) (rec_inv_sqrt v2)\<rparr>)
      else v\<lparr>ecn_marked := False, count := (if count v = 0 then 1 else count v)\<rparr>)"
    unfolding v'_def v_def [symmetric] using d assms(5) by (rule should_drop_while_dropping)
  have inc: "unat (if count v + 1 = 0 then count v + 1 - 1 else count v + 1)
            = min (unat (count v) + 1) (2 ^ 32 - 1)"
    by (rule sat_inc_u32)
  show ?thesis
  proof (cases "cobalt_next_due now v")
    case False
    with eq d d' show ?thesis by simp
  next
    case True
    let ?s = "reciprocal_scale (ucast (interval p)) (rec_inv_sqrt v')"
    from True eq have c: "count v' = (if count v + 1 = 0 then count v + 1 - 1 else count v + 1)"
      by (simp add: Let_def)
    from True eq have dn: "drop_next v' = drop_next v + ucast ?s"
      by (simp add: Let_def cobalt_control_law_def REC_INV_SQRT_SHIFT_def REC_INV_SQRT_BITS_def)
    have cnt: "unat (count v') = min (unat (count v) + 1) (2 ^ 32 - 1)"
      using inc c by simp
    have sgn: "0 \<le>s drop_next v' - drop_next v"
      using ucast_u32_nonneg [of ?s] dn by simp
    have mono: "drop_next v \<le> drop_next v'" if "unat (drop_next v) + 2 ^ 32 \<le> 2 ^ 64"
      using add_u32_no_wrap [OF that, of ?s] dn by simp
    have "unat (count v) < 2 ^ 32" using unsigned_less [of "count v"] by simp
    with cnt have le: "count v \<le> count v'"
      by (simp add: word_le_nat_alt)
    have strict: "count v < count v'" if "count v \<noteq> NOT 0"
    proof -
      from that have "unat (count v) \<noteq> unat (NOT 0 :: u32)"
        by (simp only: word_unat_eq_iff not_False_eq_True)
      with \<open>unat (count v) < 2 ^ 32\<close> have "unat (count v) < 2 ^ 32 - 1"
        by (simp add: unat_max_u32 del: bit.compl_zero)
      with cnt show ?thesis by (simp add: word_less_nat_alt)
    qed
    from True d d' cnt dn sgn mono le strict show ?thesis by (simp del: bit.compl_zero)
  qed
qed


text \<open>
  C8 as stated fails. With \<open>target\<close> 5 ms and \<open>interval\<close> 100 ms, the first packet
  (sojourn 6 ms, at \<open>now = 0\<close>) puts the controller in the dropping state with
  \<open>count = 1\<close> and \<open>drop_next\<close> at 100 ms. A second packet with the same sojourn of
  6 ms, at \<open>now\<close> = 10 ms, is over target too, but no action is due before 100 ms:
  \<open>count\<close> is not increased.
\<close>

theorem count_strict_increase_counterexample:
  "dropping (snd (cobalt_should_drop cache_zero vars_zero
       \<lparr>interval = MS2TIME 100, target = MS2TIME 5, threshold = 0, p_inc = 0, p_dec = 0\<rparr>
       0 \<lparr>enqueue_time = 0 - MS2TIME 6, ect = False\<rparr> 0))
   \<and> target \<lparr>interval = MS2TIME 100, target = MS2TIME 5, threshold = 0, p_inc = 0, p_dec = 0\<rparr>
       < MS2TIME 10 - cobalt_get_enqueue_time \<lparr>enqueue_time = MS2TIME 4, ect = False\<rparr>
   \<and> \<not> count (snd (cobalt_should_drop cache_zero vars_zero
             \<lparr>interval = MS2TIME 100, target = MS2TIME 5, threshold = 0, p_inc = 0, p_dec = 0\<rparr>
             0 \<lparr>enqueue_time = 0 - MS2TIME 6, ect = False\<rparr> 0))
       < count (snd (cobalt_should_drop cache_zero
           (snd (cobalt_should_drop cache_zero vars_zero
             \<lparr>interval = MS2TIME 100, target = MS2TIME 5, threshold = 0, p_inc = 0, p_dec = 0\<rparr>
             0 \<lparr>enqueue_time = 0 - MS2TIME 6, ect = False\<rparr> 0))
           \<lparr>interval = MS2TIME 100, target = MS2TIME 5, threshold = 0, p_inc = 0, p_dec = 0\<rparr>
           (MS2TIME 10) \<lparr>enqueue_time = MS2TIME 4, ect = False\<rparr> 0))"
  by (simp add: cobalt_should_drop_def vars_zero_def MS2TIME_def cobalt_get_enqueue_time_def
      Let_def word_sle_eq)

theorem dropping_advances_when_due_witness:
  "dropping (cobalt_run
       [4294967295, 4294967295, 3035289760, 2479700455, 2147483647, 1920767767,
        1753413055, 1623345051, 1518500250, 1431655765, 1358187914, 1294981364,
        1239850263, 1191209601, 1147878294, 1108955788]
       \<lparr>interval = MS2TIME 100, target = MS2TIME 5, threshold = 0, p_inc = 0, p_dec = 0\<rparr>
       (vars_zero\<lparr>count := 1, drop_next := MS2TIME 100, dropping := True\<rparr>)
       [Dequeue (MS2TIME 10) \<lparr>enqueue_time = MS2TIME 4, ect = False\<rparr> 0])
   \<and> unat (count (snd (cobalt_should_drop
       [4294967295, 4294967295, 3035289760, 2479700455, 2147483647, 1920767767,
        1753413055, 1623345051, 1518500250, 1431655765, 1358187914, 1294981364,
        1239850263, 1191209601, 1147878294, 1108955788]
       (cobalt_run
         [4294967295, 4294967295, 3035289760, 2479700455, 2147483647, 1920767767,
          1753413055, 1623345051, 1518500250, 1431655765, 1358187914, 1294981364,
          1239850263, 1191209601, 1147878294, 1108955788]
         \<lparr>interval = MS2TIME 100, target = MS2TIME 5, threshold = 0, p_inc = 0, p_dec = 0\<rparr>
         (vars_zero\<lparr>count := 1, drop_next := MS2TIME 100, dropping := True\<rparr>)
         [Dequeue (MS2TIME 10) \<lparr>enqueue_time = MS2TIME 4, ect = False\<rparr> 0])
       \<lparr>interval = MS2TIME 100, target = MS2TIME 5, threshold = 0, p_inc = 0, p_dec = 0\<rparr>
       (MS2TIME 100) \<lparr>enqueue_time = MS2TIME 94, ect = False\<rparr> 0))) = 2"
proof -
  let ?T = "[4294967295, 4294967295, 3035289760, 2479700455, 2147483647, 1920767767,
        1753413055, 1623345051, 1518500250, 1431655765, 1358187914, 1294981364,
        1239850263, 1191209601, 1147878294, 1108955788] :: cache"
  let ?P = "\<lparr>interval = MS2TIME 100, target = MS2TIME 5, threshold = 0, p_inc = 0, p_dec = 0\<rparr>"
  let ?v0 = "vars_zero\<lparr>count := 1, drop_next := MS2TIME 100, dropping := True\<rparr>"
  let ?es = "[Dequeue (MS2TIME 10) \<lparr>enqueue_time = MS2TIME 4, ect = False\<rparr> 0]"
  let ?skb = "\<lparr>enqueue_time = MS2TIME 94, ect = False\<rparr>"
  have h1: "dropping ?v0" by simp
  have h2: "\<forall>e\<in>set ?es. over_target ?P e"
    by (simp add: over_target_def MS2TIME_def cobalt_get_enqueue_time_def)
  have h3: "target ?P < MS2TIME 100 - cobalt_get_enqueue_time ?skb"
    by (simp add: MS2TIME_def cobalt_get_enqueue_time_def)
  have v: "cobalt_run ?T ?P ?v0 ?es = ?v0"
    by (simp add: cobalt_run_def cobalt_should_drop_def vars_zero_def MS2TIME_def
        cobalt_get_enqueue_time_def Let_def word_sle_eq)
  have due: "cobalt_next_due (MS2TIME 100) ?v0"
    by (simp add: cobalt_next_due_def vars_zero_def MS2TIME_def)
  from dropping_advances_when_due [OF h1 h2 h3, of ?T 0] show ?thesis
    unfolding v using due by (simp add: vars_zero_def)
qed

end
